theory Spec2Isabelle
  imports Main "HOL-Library.Sublist"
begin

section \<open>Data model of illu.go\<close>

text \<open>
  The Hacker News relay of \<^verbatim>\<open>src/illu.go\<close>: the shared map \<^verbatim>\<open>lastSentStoryIDs.ids\<close>,
  the initial batch \<^verbatim>\<open>sendInitialHackerNewsStories\<close>, the periodic delta
  \<^verbatim>\<open>sendDeltaHackerNewsStories\<close> and the session loop of \<^verbatim>\<open>hnEventsHandler\<close>.

  Go's \<^verbatim>\<open>int\<close> identifiers are only compared and used as map keys, never computed with, so
  they are modelled as \<open>int\<close>. Logging (\<^verbatim>\<open>log.Printf\<close>) and the time stamps inside the data
  lines are left out. The mutex \<^verbatim>\<open>lastSentStoryIDs.Mutex\<close> is modelled by what it provides:
  the calls that touch the map run one after the other.
\<close>

record HNStory =
  ID :: int
  Title :: string
  URL :: string
  By :: string
  Score :: int
  Type :: string

text \<open>\<^verbatim>\<open>map[int]struct{}\<close>: a key is present or absent, the entry carries nothing.\<close>

type_synonym seen_set = "int \<rightharpoonup> unit"

text \<open>\<^verbatim>\<open>func init()\<close>: the map is created empty when the process starts.\<close>

definition init :: seen_set where
  "init = Map.empty"

subsection \<open>The outside world of one call\<close>

text \<open>
  What the HTTP client and the JSON decoder hand back. The answer to the list request,
  the answer to the \<open>n\<close>-th item request of the call (for the identifier asked), and the
  result of \<^verbatim>\<open>json.Marshal\<close> on a story.
\<close>

datatype failure = FetchError | DecodeError | MarshalError

datatype top_response = TopFetchFailed | TopDecodeFailed | TopOK "int list"

datatype item_response = ItemFetchFailed | ItemDecodeFailed | ItemOK HNStory

record env =
  topstories :: top_response
  item :: "nat \<Rightarrow> int \<Rightarrow> item_response"
  marshal :: "HNStory \<Rightarrow> string option"

subsection \<open>Events, the transport and the trace of a call\<close>

text \<open>
  One event is one flushed message of the stream. \<open>NewStory\<close> carries the \<^verbatim>\<open>id:\<close> line
  (\<^verbatim>\<open>story.ID\<close>) and the JSON of the \<^verbatim>\<open>data:\<close> line.
\<close>

datatype event =
    Connected
  | NewStory int string
  | NoNewData
  | ErrorEvent failure
  | StoryError int failure

datatype write_error = WriteError

datatype transport = Open | Closed

text \<open>
  \<^verbatim>\<open>fmt.Fprintf(w, ...)\<close> followed by \<^verbatim>\<open>flusher.Flush()\<close>: on a closed transport the write
  returns an error. The source never binds that result.
\<close>

fun Fprintf :: "transport \<Rightarrow> event \<Rightarrow> write_error option" where
  "Fprintf Open ev = None"
| "Fprintf Closed ev = Some WriteError"

text \<open>
  The trace of a call lists, in program order, every request sent upstream and every
  write attempted on the session's stream together with the result the write returned.
  \<open>HttpError\<close> is the plain 500 answer of \<^verbatim>\<open>http.Error\<close>, which is not a stream event.
\<close>

datatype action =
    GetTopStories
  | GetItem int
  | Write event "write_error option"
  | HttpError

definition emit :: "transport \<Rightarrow> event \<Rightarrow> action" where
  "emit w ev = Write ev (Fprintf w ev)"

fun written :: "action list \<Rightarrow> event list" where
  "written [] = []"
| "written (Write ev r # tr) = ev # written tr"
| "written (a # tr) = written tr"

fun requested :: "action list \<Rightarrow> int list" where
  "requested [] = []"
| "requested (GetItem i # tr) = i # requested tr"
| "requested (a # tr) = requested tr"

fun attempt :: "action \<Rightarrow> action" where
  "attempt (Write ev r) = Write ev None"
| "attempt a = a"

fun isNewStory :: "event \<Rightarrow> bool" where
  "isNewStory (NewStory i js) = True"
| "isNewStory ev = False"

fun newStoryIDsOf :: "event list \<Rightarrow> int list" where
  "newStoryIDsOf [] = []"
| "newStoryIDsOf (NewStory i js # evs) = i # newStoryIDsOf evs"
| "newStoryIDsOf (ev # evs) = newStoryIDsOf evs"

section \<open>The seen-set tracker\<close>

text \<open>
  Lines 276-283 of \<^verbatim>\<open>sendDeltaHackerNewsStories\<close>:
  \<^verbatim>\<open>
  var newStoryIDs []int
  for _, id := range currentStoryIDs {
      if _, exists := lastSentStoryIDs.ids[id]; !exists {
          newStoryIDs = append(newStoryIDs, id)
      }
      lastSentStoryIDs.ids[id] = struct{}{}
  }
  \<close>
  The loop carries the slice built so far and the map.
\<close>

fun diffLoop :: "int list \<Rightarrow> int list \<times> seen_set \<Rightarrow> int list \<times> seen_set" where
  "diffLoop [] (newStoryIDs, ids) = (newStoryIDs, ids)"
| "diffLoop (i # rest) (newStoryIDs, ids) =
     diffLoop rest
       (if ids i = None then newStoryIDs @ [i] else newStoryIDs, ids(i \<mapsto> ()))"

definition markAndDiff :: "seen_set \<Rightarrow> int list \<Rightarrow> int list \<times> seen_set" where
  "markAndDiff ids currentStoryIDs = diffLoop currentStoryIDs ([], ids)"

section \<open>The periodic delta: sendDeltaHackerNewsStories\<close>

definition maxNewStoriesToSend :: nat where
  "maxNewStoriesToSend = 5"

text \<open>
  One iteration of the loop at lines 299-337: fetch the item, decode it, skip it when it
  is not a complete story, marshal it and write the \<^verbatim>\<open>new-story\<close> event. Every failure
  writes a \<^verbatim>\<open>story-error\<close> event and goes on with the next identifier; the validation skip
  writes nothing.
\<close>

definition deltaStory :: "env \<Rightarrow> transport \<Rightarrow> nat \<Rightarrow> int \<Rightarrow> action list" where
  "deltaStory e w n i =
     GetItem i #
     (case item e n i of
        ItemFetchFailed \<Rightarrow> [emit w (StoryError i FetchError)]
      | ItemDecodeFailed \<Rightarrow> [emit w (StoryError i DecodeError)]
      | ItemOK story \<Rightarrow>
          if Type story \<noteq> ''story'' \<or> Title story = '''' \<or> URL story = '''' then []
          else (case marshal e story of
                  None \<Rightarrow> [emit w (StoryError i MarshalError)]
                | Some storyJSON \<Rightarrow> [emit w (NewStory (ID story) storyJSON)]))"

fun deltaStories :: "env \<Rightarrow> transport \<Rightarrow> nat \<Rightarrow> int list \<Rightarrow> action list" where
  "deltaStories e w n [] = []"
| "deltaStories e w n (i # rest) = deltaStory e w n i @ deltaStories e w (Suc n) rest"

text \<open>
  The whole call. A failed list fetch or decode writes one \<^verbatim>\<open>error\<close> event and returns
  before the map is touched (lines 256-271); an empty \<^verbatim>\<open>newStoryIDs\<close> writes
  \<^verbatim>\<open>no-new-data\<close> and returns (lines 285-290); otherwise the slice is cut to
  \<^verbatim>\<open>maxNewStoriesToSend\<close> and sent.
\<close>

definition sendDeltaHackerNewsStories ::
  "env \<Rightarrow> transport \<Rightarrow> seen_set \<Rightarrow> action list \<times> seen_set" where
  "sendDeltaHackerNewsStories e w ids =
     (case topstories e of
        TopFetchFailed \<Rightarrow> ([GetTopStories, emit w (ErrorEvent FetchError)], ids)
      | TopDecodeFailed \<Rightarrow> ([GetTopStories, emit w (ErrorEvent DecodeError)], ids)
      | TopOK currentStoryIDs \<Rightarrow>
          (let (newStoryIDs, ids') = markAndDiff ids currentStoryIDs in
           if length newStoryIDs = 0 then ([GetTopStories, emit w NoNewData], ids')
           else
             (GetTopStories #
                deltaStories e w 0
                  (if length newStoryIDs > maxNewStoriesToSend
                   then take maxNewStoriesToSend newStoryIDs else newStoryIDs),
              ids')))"

section \<open>The initial batch: sendInitialHackerNewsStories\<close>

definition initialStoriesLimit :: nat where
  "initialStoriesLimit = 10"

text \<open>
  One iteration of the loop at lines 202-247. Only the last statement of a completed
  iteration touches the map: \<^verbatim>\<open>lastSentStoryIDs.ids[story.ID] = struct{}{}\<close>, with the
  identifier the decoded story carries.
\<close>

definition initialStory ::
  "env \<Rightarrow> transport \<Rightarrow> nat \<Rightarrow> int \<Rightarrow> seen_set \<Rightarrow> action list \<times> seen_set" where
  "initialStory e w n i ids =
     (case item e n i of
        ItemFetchFailed \<Rightarrow> ([GetItem i, emit w (StoryError i FetchError)], ids)
      | ItemDecodeFailed \<Rightarrow> ([GetItem i, emit w (StoryError i DecodeError)], ids)
      | ItemOK story \<Rightarrow>
          if Type story \<noteq> ''story'' \<or> Title story = '''' \<or> URL story = '''' then ([GetItem i], ids)
          else (case marshal e story of
                  None \<Rightarrow> ([GetItem i, emit w (StoryError i MarshalError)], ids)
                | Some storyJSON \<Rightarrow>
                    ([GetItem i, emit w (NewStory (ID story) storyJSON)], ids(ID story \<mapsto> ()))))"

fun initialStories ::
  "env \<Rightarrow> transport \<Rightarrow> nat \<Rightarrow> int list \<Rightarrow> seen_set \<Rightarrow> action list \<times> seen_set" where
  "initialStories e w n [] ids = ([], ids)"
| "initialStories e w n (i # rest) ids =
     (let (tr, ids') = initialStory e w n i ids;
          (tr', ids'') = initialStories e w (Suc n) rest ids'
      in (tr @ tr', ids''))"

definition sendInitialHackerNewsStories ::
  "env \<Rightarrow> transport \<Rightarrow> seen_set \<Rightarrow> action list \<times> seen_set" where
  "sendInitialHackerNewsStories e w ids =
     (case topstories e of
        TopFetchFailed \<Rightarrow> ([GetTopStories, emit w (ErrorEvent FetchError)], ids)
      | TopDecodeFailed \<Rightarrow> ([GetTopStories, emit w (ErrorEvent DecodeError)], ids)
      | TopOK currentStoryIDs \<Rightarrow>
          (let storiesToFetch =
                 (if length currentStoryIDs > initialStoriesLimit
                  then take initialStoriesLimit currentStoryIDs else currentStoryIDs);
               (tr, ids') = initialStories e w 0 storiesToFetch ids
           in (GetTopStories # tr, ids')))"

section \<open>The session: hnEventsHandler\<close>

text \<open>
  The \<^verbatim>\<open>select\<close> of lines 157-166 receives either a tick or the cancellation of the
  request's context. The list gives what the successive selects received; a tick comes
  with the state of the transport and the answers of the outside world during that
  cycle. When the list is used up the session is still waiting.
\<close>

datatype selected = TickerC transport env | CtxDone

fun hnEventsLoop :: "selected list \<Rightarrow> seen_set \<Rightarrow> action list \<times> seen_set" where
  "hnEventsLoop [] ids = ([], ids)"
| "hnEventsLoop (CtxDone # later) ids = ([], ids)"
| "hnEventsLoop (TickerC w e # later) ids =
     (let (tr, ids') = sendDeltaHackerNewsStories e w ids;
          (tr', ids'') = hnEventsLoop later ids'
      in (tr @ tr', ids''))"

definition hnEventsHandler ::
  "bool \<Rightarrow> transport \<Rightarrow> env \<Rightarrow> selected list \<Rightarrow> seen_set \<Rightarrow> action list \<times> seen_set" where
  "hnEventsHandler flusherOK w e later ids =
     (if \<not> flusherOK then ([HttpError], ids)
      else
        (let (tr, ids') = sendInitialHackerNewsStories e w ids;
             (tr', ids'') = hnEventsLoop later ids'
         in (emit w Connected # tr @ tr', ids'')))"

section \<open>Several sessions on the shared map\<close>

text \<open>
  Both functions hold the mutex from their first access to the map to their return, so
  what the sessions of a process do to the map is a sequence of calls, each run to its
  end on the map the previous one left.
\<close>

datatype call = InitialCall transport env | DeltaCall transport env

fun exec :: "call \<Rightarrow> seen_set \<Rightarrow> action list \<times> seen_set" where
  "exec (InitialCall w e) ids = sendInitialHackerNewsStories e w ids"
| "exec (DeltaCall w e) ids = sendDeltaHackerNewsStories e w ids"

fun run :: "call list \<Rightarrow> seen_set \<Rightarrow> action list list \<times> seen_set" where
  "run [] ids = ([], ids)"
| "run (c # cs) ids =
     (let (tr, ids') = exec c ids; (trs, ids'') = run cs ids' in (tr # trs, ids''))"

text \<open>
  The \<^verbatim>\<open>newStoryIDs\<close> a call computes, before the cut to \<^verbatim>\<open>maxNewStoriesToSend\<close>: nothing
  for an initial batch or a failed list fetch.
\<close>

fun deltaOf :: "call \<Rightarrow> seen_set \<Rightarrow> int list" where
  "deltaOf (InitialCall w e) ids = []"
| "deltaOf (DeltaCall w e) ids =
     (case topstories e of
        TopOK currentStoryIDs \<Rightarrow> fst (markAndDiff ids currentStoryIDs)
      | _ \<Rightarrow> [])"

fun deltas :: "call list \<Rightarrow> seen_set \<Rightarrow> int list list" where
  "deltas [] ids = []"
| "deltas (c # cs) ids = deltaOf c ids # deltas cs (snd (exec c ids))"

section \<open>Example worlds\<close>

definition storyOf :: "int \<Rightarrow> HNStory" where
  "storyOf i = \<lparr>ID = i, Title = ''Foo'', URL = ''http://x'', By = ''pg'', Score = 1, Type = ''story''\<rparr>"

definition jobOf :: "int \<Rightarrow> HNStory" where
  "jobOf i = \<lparr>ID = i, Title = ''Foo'', URL = ''http://x'', By = ''pg'', Score = 1, Type = ''job''\<rparr>"

text \<open>Every item is a complete story carrying the identifier asked for.\<close>

definition storiesEnv :: "top_response \<Rightarrow> env" where
  "storiesEnv answer =
     \<lparr>topstories = answer, item = (\<lambda>n i. ItemOK (storyOf i)), marshal = (\<lambda>s. Some ''{}'')\<rparr>"

text \<open>The same, except that item 2 is a job posting.\<close>

definition jobEnv :: "top_response \<Rightarrow> env" where
  "jobEnv answer =
     \<lparr>topstories = answer,
      item = (\<lambda>n i. ItemOK (if i = 2 then jobOf i else storyOf i)),
      marshal = (\<lambda>s. Some ''{}'')\<rparr>"

text \<open>Every item is a job posting.\<close>

definition jobsEnv :: "top_response \<Rightarrow> env" where
  "jobsEnv answer =
     \<lparr>topstories = answer, item = (\<lambda>n i. ItemOK (jobOf i)), marshal = (\<lambda>s. Some ''{}'')\<rparr>"


section \<open>Notation for the statements\<close>

text \<open>Keeping the first occurrence of every element of a list, in order.\<close>

abbreviation firsts :: "'a list \<Rightarrow> 'a list" where
  "firsts xs \<equiv> rev (remdups (rev xs))"

section \<open>Lemmas on the tracker\<close>

lemma remdups_snoc: "remdups (zs @ [x]) = remdups (filter (\<lambda>y. y \<noteq> x) zs) @ [x]"
  by (induction zs) auto

lemma firsts_Cons: "firsts (x # xs) = x # firsts (filter (\<lambda>y. y \<noteq> x) xs)"
  by (simp add: remdups_snoc rev_filter)

lemma firsts_distinct: "distinct xs \<Longrightarrow> firsts xs = xs"
  by (simp add: distinct_remdups_id)

lemma set_firsts: "set (firsts xs) = set xs"
  by simp

lemma distinct_firsts: "distinct (firsts xs)"
  by simp

lemma seen_upd_idem: "(ids :: seen_set) i \<noteq> None \<Longrightarrow> ids(i \<mapsto> ()) = ids"
  by (auto simp: fun_upd_idem_iff)

lemma diffLoop_fst:
  "fst (diffLoop xs (new, ids)) = new @ firsts (filter (\<lambda>i. ids i = None) xs)"
proof (induction xs arbitrary: new ids)
  case Nil
  show ?case by simp
next
  case (Cons x xs)
  show ?case
  proof (cases "ids x = None")
    case True
    have f: "filter (\<lambda>i. (ids(x \<mapsto> ())) i = None) xs
        = filter (\<lambda>y. y \<noteq> x) (filter (\<lambda>i. ids i = None) xs)"
      by (induction xs) auto
    have "fst (diffLoop (x # xs) (new, ids)) = fst (diffLoop xs (new @ [x], ids(x \<mapsto> ())))"
      using True by simp
    also have "\<dots> = (new @ [x]) @ firsts (filter (\<lambda>i. (ids(x \<mapsto> ())) i = None) xs)"
      by (rule Cons.IH)
    also have "\<dots> = new @ firsts (x # filter (\<lambda>i. ids i = None) xs)"
      unfolding f firsts_Cons by simp
    also have "\<dots> = new @ firsts (filter (\<lambda>i. ids i = None) (x # xs))"
      using True by simp
    finally show ?thesis .
  next
    case False
    then have "ids(x \<mapsto> ()) = ids" by (rule seen_upd_idem)
    with False Cons.IH [of new ids] show ?thesis by simp
  qed
qed

lemma diffLoop_snd: "dom (snd (diffLoop xs (new, ids))) = dom ids \<union> set xs"
  by (induction xs arbitrary: new ids) auto

lemma markAndDiff_fst:
  "fst (markAndDiff ids xs) = firsts (filter (\<lambda>i. ids i = None) xs)"
  by (simp add: markAndDiff_def diffLoop_fst)

lemma markAndDiff_dom: "dom (snd (markAndDiff ids xs)) = dom ids \<union> set xs"
  by (simp add: markAndDiff_def diffLoop_snd)

lemma markAndDiff_set: "set (fst (markAndDiff ids xs)) = set xs - dom ids"
  by (auto simp: markAndDiff_fst)

lemma markAndDiff_distinct: "distinct (fst (markAndDiff ids xs))"
  by (simp add: markAndDiff_fst)

section \<open>Lemmas on the periodic delta\<close>

lemma subseq_firsts: "subseq (firsts xs) xs"
proof (induction "length xs" arbitrary: xs rule: less_induct)
  case less
  show ?case
  proof (cases xs)
    case Nil
    then show ?thesis by simp
  next
    case (Cons x ys)
    let ?zs = "filter (\<lambda>y. y \<noteq> x) ys"
    have "length ?zs < length xs" using Cons by (simp add: le_imp_less_Suc)
    then have "subseq (firsts ?zs) ?zs" by (rule less)
    then have "subseq (firsts ?zs) ys"
      by (rule subseq_order.trans) simp
    then show ?thesis unfolding Cons firsts_Cons by simp
  qed
qed

lemma markAndDiff_subseq: "subseq (fst (markAndDiff ids xs)) xs"
  unfolding markAndDiff_fst
  by (rule subseq_order.trans [OF subseq_firsts]) simp

lemma written_append: "written (a @ b) = written a @ written b"
  by (induction a rule: written.induct) auto

lemma requested_append: "requested (a @ b) = requested a @ requested b"
  by (induction a rule: requested.induct) auto

lemma newStoryIDsOf_append: "newStoryIDsOf (a @ b) = newStoryIDsOf a @ newStoryIDsOf b"
  by (induction a rule: newStoryIDsOf.induct) auto

lemma requested_deltaStory: "requested (deltaStory e w n i) = [i]"
  by (simp add: deltaStory_def emit_def split: item_response.splits option.splits)

lemma requested_deltaStories: "requested (deltaStories e w n xs) = xs"
  by (induction xs arbitrary: n) (simp_all add: requested_append requested_deltaStory)

lemma newStory_deltaStory:
  "length (filter isNewStory (written (deltaStory e w n i))) \<le> 1"
  by (simp add: deltaStory_def emit_def split: item_response.splits option.splits)

lemma newStory_deltaStories:
  "length (filter isNewStory (written (deltaStories e w n xs))) \<le> length xs"
proof (induction xs arbitrary: n)
  case Nil
  show ?case by simp
next
  case (Cons i xs)
  from newStory_deltaStory [of e w n i] Cons.IH [of "Suc n"] show ?case
    by (simp add: written_append)
qed

lemma attempt_deltaStory: "map attempt (deltaStory e w n i) = map attempt (deltaStory e w' n i)"
  by (simp add: deltaStory_def emit_def split: item_response.splits option.splits)

lemma attempt_deltaStories:
  "map attempt (deltaStories e w n xs) = map attempt (deltaStories e w' n xs)"
  by (induction xs arbitrary: n) (simp_all add: attempt_deltaStory)

lemma snd_sendDelta:
  "snd (sendDeltaHackerNewsStories e w ids) =
     (case topstories e of TopOK L \<Rightarrow> snd (markAndDiff ids L) | _ \<Rightarrow> ids)"
  by (simp add: sendDeltaHackerNewsStories_def split_beta split: top_response.splits)

lemma dom_sendDelta:
  "dom (snd (sendDeltaHackerNewsStories e w ids)) =
     (case topstories e of TopOK L \<Rightarrow> dom ids \<union> set L | _ \<Rightarrow> dom ids)"
  by (simp add: snd_sendDelta markAndDiff_dom split: top_response.splits)

lemma fst_sendDelta_ok:
  "topstories e = TopOK L \<Longrightarrow> fst (markAndDiff ids L) \<noteq> [] \<Longrightarrow>
   fst (sendDeltaHackerNewsStories e w ids) =
     GetTopStories # deltaStories e w 0 (take maxNewStoriesToSend (fst (markAndDiff ids L)))"
  by (simp add: sendDeltaHackerNewsStories_def split_beta)

lemma fst_sendDelta_empty:
  "topstories e = TopOK L \<Longrightarrow> fst (markAndDiff ids L) = [] \<Longrightarrow>
   fst (sendDeltaHackerNewsStories e w ids) = [GetTopStories, emit w NoNewData]"
  by (simp add: sendDeltaHackerNewsStories_def split_beta)

lemma requested_sendDelta:
  "topstories e = TopOK L \<Longrightarrow>
   requested (fst (sendDeltaHackerNewsStories e w ids)) =
     take maxNewStoriesToSend (fst (markAndDiff ids L))"
  by (cases "fst (markAndDiff ids L) = []")
     (simp_all add: fst_sendDelta_ok fst_sendDelta_empty requested_deltaStories emit_def)

lemma attempt_sendDelta:
  "map attempt (fst (sendDeltaHackerNewsStories e w ids)) =
   map attempt (fst (sendDeltaHackerNewsStories e w' ids))"
  using attempt_deltaStories [of e w 0 _ w']
  by (simp add: sendDeltaHackerNewsStories_def split_beta emit_def split: top_response.splits)

section \<open>The map only grows\<close>

lemma initialStory_mono: "ids x = Some () \<Longrightarrow> snd (initialStory e w n i ids) x = Some ()"
  by (simp add: initialStory_def split: item_response.splits option.splits)

lemma initialStories_mono:
  "ids x = Some () \<Longrightarrow> snd (initialStories e w n xs ids) x = Some ()"
proof (induction xs arbitrary: n ids)
  case Nil
  then show ?case by simp
next
  case (Cons i xs)
  from Cons.prems have "snd (initialStory e w n i ids) x = Some ()"
    by (rule initialStory_mono)
  then have "snd (initialStories e w (Suc n) xs (snd (initialStory e w n i ids))) x = Some ()"
    by (rule Cons.IH)
  then show ?case by (simp add: split_beta)
qed

lemma snd_sendInitial:
  "snd (sendInitialHackerNewsStories e w ids) =
     (case topstories e of
        TopOK L \<Rightarrow> snd (initialStories e w 0 (take initialStoriesLimit L) ids)
      | _ \<Rightarrow> ids)"
  by (simp add: sendInitialHackerNewsStories_def split_beta Let_def split: top_response.splits)

lemma fst_sendInitial:
  "topstories e = TopOK L \<Longrightarrow>
   fst (sendInitialHackerNewsStories e w ids) =
     GetTopStories # fst (initialStories e w 0 (take initialStoriesLimit L) ids)"
  by (simp add: sendInitialHackerNewsStories_def split_beta Let_def)

lemma sendInitial_mono:
  "ids x = Some () \<Longrightarrow> snd (sendInitialHackerNewsStories e w ids) x = Some ()"
  by (simp add: snd_sendInitial initialStories_mono split: top_response.splits)

lemma sendDelta_mono:
  "ids x = Some () \<Longrightarrow> snd (sendDeltaHackerNewsStories e w ids) x = Some ()"
  using dom_sendDelta [of e w ids] by (auto simp: dom_def split: top_response.splits)

lemma exec_mono: "ids x = Some () \<Longrightarrow> snd (exec c ids) x = Some ()"
  by (cases c) (simp_all add: sendInitial_mono sendDelta_mono)

lemma run_mono: "ids x = Some () \<Longrightarrow> snd (run cs ids) x = Some ()"
proof (induction cs arbitrary: ids)
  case Nil
  then show ?case by simp
next
  case (Cons c cs)
  from Cons.prems have "snd (exec c ids) x = Some ()" by (rule exec_mono)
  then have "snd (run cs (snd (exec c ids))) x = Some ()" by (rule Cons.IH)
  then show ?case by (simp add: split_beta)
qed

lemma hnEventsLoop_mono: "ids x = Some () \<Longrightarrow> snd (hnEventsLoop later ids) x = Some ()"
proof (induction later arbitrary: ids)
  case Nil
  then show ?case by simp
next
  case (Cons s later)
  show ?case
  proof (cases s)
    case CtxDone
    with Cons.prems show ?thesis by simp
  next
    case (TickerC w e)
    from Cons.prems have "snd (sendDeltaHackerNewsStories e w ids) x = Some ()"
      by (rule sendDelta_mono)
    then have "snd (hnEventsLoop later (snd (sendDeltaHackerNewsStories e w ids))) x = Some ()"
      by (rule Cons.IH)
    with TickerC show ?thesis by (simp add: split_beta)
  qed
qed

lemma hnEventsHandler_mono:
  "ids x = Some () \<Longrightarrow> snd (hnEventsHandler ok w e later ids) x = Some ()"
  by (simp add: hnEventsHandler_def split_beta hnEventsLoop_mono sendInitial_mono)

section \<open>No identifier is new twice\<close>

lemma deltaOf_fresh: "ids x = Some () \<Longrightarrow> x \<notin> set (deltaOf c ids)"
  by (cases c) (auto simp: markAndDiff_set split: top_response.splits)

lemma deltaOf_marked: "x \<in> set (deltaOf c ids) \<Longrightarrow> snd (exec c ids) x = Some ()"
proof (cases c)
  case (InitialCall w e)
  assume "x \<in> set (deltaOf c ids)"
  with InitialCall show ?thesis by simp
next
  case (DeltaCall w e)
  assume x: "x \<in> set (deltaOf c ids)"
  show ?thesis
  proof (cases "topstories e")
    case (TopOK L)
    with x DeltaCall have "x \<in> set L" by (simp add: markAndDiff_set)
    with TopOK have "x \<in> dom (snd (sendDeltaHackerNewsStories e w ids))"
      by (simp add: dom_sendDelta)
    with DeltaCall show ?thesis by auto
  qed (use x DeltaCall in simp_all)
qed

lemma deltas_fresh: "ids x = Some () \<Longrightarrow> x \<notin> set (concat (deltas cs ids))"
proof (induction cs arbitrary: ids)
  case Nil
  show ?case by simp
next
  case (Cons c cs)
  from Cons.prems have "snd (exec c ids) x = Some ()" by (rule exec_mono)
  then have "x \<notin> set (concat (deltas cs (snd (exec c ids))))" by (rule Cons.IH)
  with deltaOf_fresh [of ids x c] Cons.prems show ?case by simp
qed

lemma deltaOf_distinct: "distinct (deltaOf c ids)"
  by (cases c) (simp_all add: markAndDiff_distinct split: top_response.splits)

lemma deltas_distinct: "distinct (concat (deltas cs ids))"
proof (induction cs arbitrary: ids)
  case Nil
  show ?case by simp
next
  case (Cons c cs)
  have "set (deltaOf c ids) \<inter> set (concat (deltas cs (snd (exec c ids)))) = {}"
    using deltaOf_marked [of _ c ids] deltas_fresh [of "snd (exec c ids)" _ cs] by blast
  with Cons.IH [of "snd (exec c ids)"] deltaOf_distinct [of c ids] show ?case by simp
qed

lemma length_deltas: "length (deltas cs ids) = length cs"
  by (induction cs arbitrary: ids) simp_all

lemma concat_disjoint_nth:
  "distinct (concat xss) \<Longrightarrow> k < j \<Longrightarrow> j < length xss \<Longrightarrow> set (xss ! k) \<inter> set (xss ! j) = {}"
proof (induction xss arbitrary: k j)
  case Nil
  then show ?case by simp
next
  case (Cons xs xss)
  from Cons.prems obtain j' where j: "j = Suc j'" by (cases j) auto
  show ?case
  proof (cases k)
    case 0
    from Cons.prems j have "xss ! j' \<in> set xss" by simp
    with Cons.prems(1) have "set xs \<inter> set (xss ! j') = {}" by auto
    with 0 j show ?thesis by simp
  next
    case (Suc k')
    with Cons.prems j have "set (xss ! k') \<inter> set (xss ! j') = {}"
      by (intro Cons.IH) auto
    with Suc j show ?thesis by simp
  qed
qed

section \<open>Two deltas in a row\<close>

lemma markAndDiff_twice: "fst (markAndDiff (snd (markAndDiff ids xs)) xs) = []"
proof -
  have "set (fst (markAndDiff (snd (markAndDiff ids xs)) xs)) = {}"
    unfolding markAndDiff_set markAndDiff_dom by auto
  then show ?thesis by simp
qed

lemma markAndDiff_None:
  "(snd (markAndDiff ids A) i = None) = (i \<notin> set A \<and> ids i = None)"
proof -
  have "(i \<notin> dom (snd (markAndDiff ids A))) = (i \<notin> set A \<and> i \<notin> dom ids)"
    by (auto simp: markAndDiff_dom)
  then show ?thesis by (metis domIff)
qed

lemma markAndDiff_after:
  "fst (markAndDiff (snd (markAndDiff ids A)) B)
     = firsts (filter (\<lambda>i. i \<notin> set A \<and> ids i = None) B)"
  by (simp add: markAndDiff_fst markAndDiff_None)

section \<open>Cycles that deliver nothing\<close>

lemma markAndDiff_empty_iff: "(fst (markAndDiff ids L) = []) = (\<forall>i \<in> set L. ids i = Some ())"
proof -
  have "(fst (markAndDiff ids L) = []) = (set (fst (markAndDiff ids L)) = {})" by simp
  also have "\<dots> = (set L \<subseteq> dom ids)" by (simp add: markAndDiff_set)
  also have "\<dots> = (\<forall>i \<in> set L. ids i = Some ())" by (auto simp: dom_def)
  finally show ?thesis .
qed

lemma diffLoop_all_seen:
  "\<forall>i \<in> set L. ids i = Some () \<Longrightarrow> snd (diffLoop L (new, ids)) = ids"
  by (induction L arbitrary: new) (simp_all add: seen_upd_idem)

lemma markAndDiff_all_seen:
  "fst (markAndDiff ids L) = [] \<Longrightarrow> snd (markAndDiff ids L) = ids"
  by (simp add: markAndDiff_empty_iff) (simp add: markAndDiff_def diffLoop_all_seen)

lemma written_deltaStories_skipped:
  "\<forall>k < length xs. \<exists>s. item e (n + k) (xs ! k) = ItemOK s
       \<and> (Type s \<noteq> ''story'' \<or> Title s = '''' \<or> URL s = '''')
   \<Longrightarrow> written (deltaStories e w n xs) = []"
proof (induction xs arbitrary: n)
  case Nil
  show ?case by simp
next
  case (Cons i xs)
  from Cons.prems [rule_format, of 0] obtain s where
    s: "item e n i = ItemOK s" "Type s \<noteq> ''story'' \<or> Title s = '''' \<or> URL s = ''''"
    by auto
  then have one: "written (deltaStory e w n i) = []"
    by (simp add: deltaStory_def)
  have "\<forall>k < length xs. \<exists>s. item e (Suc n + k) (xs ! k) = ItemOK s
       \<and> (Type s \<noteq> ''story'' \<or> Title s = '''' \<or> URL s = '''')"
    using Cons.prems by (auto dest: spec [of _ "Suc _"])
  then have "written (deltaStories e w (Suc n) xs) = []" by (rule Cons.IH)
  with one show ?case by (simp add: written_append)
qed

section \<open>The initial batch\<close>

lemma requested_initialStory: "requested (fst (initialStory e w n i ids)) = [i]"
  by (simp add: initialStory_def emit_def split: item_response.splits option.splits)

lemma requested_initialStories: "requested (fst (initialStories e w n xs ids)) = xs"
  by (induction xs arbitrary: n ids)
     (simp_all add: split_beta requested_append requested_initialStory)

lemma dom_initialStory:
  "dom (snd (initialStory e w n i ids))
     = dom ids \<union> set (newStoryIDsOf (written (fst (initialStory e w n i ids))))"
  by (simp add: initialStory_def emit_def split: item_response.splits option.splits)

lemma dom_initialStories:
  "dom (snd (initialStories e w n xs ids))
     = dom ids \<union> set (newStoryIDsOf (written (fst (initialStories e w n xs ids))))"
proof (induction xs arbitrary: n ids)
  case Nil
  show ?case by simp
next
  case (Cons i xs)
  show ?case
    using Cons.IH [of "Suc n" "snd (initialStory e w n i ids)"] dom_initialStory [of e w n i ids]
    by (simp add: split_beta written_append newStoryIDsOf_append Un_assoc)
qed

lemma initialStory_delivered:
  "item e n i = ItemOK s \<Longrightarrow> Type s = ''story'' \<Longrightarrow> Title s \<noteq> '''' \<Longrightarrow> URL s \<noteq> '''' \<Longrightarrow>
   marshal e s = Some js \<Longrightarrow>
   written (fst (initialStory e w n i ids)) = [NewStory (ID s) js]"
  by (simp add: initialStory_def emit_def)

lemma initialStories_delivered:
  "\<forall>k < length xs. \<exists>s js. item e (n + k) (xs ! k) = ItemOK s \<and> ID s = xs ! k
       \<and> Type s = ''story'' \<and> Title s \<noteq> '''' \<and> URL s \<noteq> '''' \<and> marshal e s = Some js
   \<Longrightarrow> newStoryIDsOf (written (fst (initialStories e w n xs ids))) = xs"
proof (induction xs arbitrary: n ids)
  case Nil
  show ?case by simp
next
  case (Cons i xs)
  from Cons.prems [rule_format, of 0] obtain s js where
    "item e n i = ItemOK s" "ID s = i" "Type s = ''story''" "Title s \<noteq> ''''" "URL s \<noteq> ''''"
    "marshal e s = Some js"
    by auto
  then have one: "newStoryIDsOf (written (fst (initialStory e w n i ids))) = [i]"
    by (simp add: initialStory_delivered)
  have "\<forall>k < length xs. \<exists>s js. item e (Suc n + k) (xs ! k) = ItemOK s \<and> ID s = xs ! k
       \<and> Type s = ''story'' \<and> Title s \<noteq> '''' \<and> URL s \<noteq> '''' \<and> marshal e s = Some js"
    using Cons.prems by (auto dest: spec [of _ "Suc _"])
  then have "newStoryIDsOf (written (fst (initialStories e w (Suc n) xs
      (snd (initialStory e w n i ids))))) = xs"
    by (rule Cons.IH)
  with one show ?case by (simp add: split_beta written_append newStoryIDsOf_append)
qed

section \<open>Later cycles\<close>

lemma requested_sendDelta_fresh:
  "ids x = Some () \<Longrightarrow> x \<notin> set (requested (fst (sendDeltaHackerNewsStories e w ids)))"
proof (cases "topstories e")
  case (TopOK L)
  assume "ids x = Some ()"
  then have "x \<notin> set (fst (markAndDiff ids L))" by (auto simp: markAndDiff_set)
  then have "x \<notin> set (take maxNewStoriesToSend (fst (markAndDiff ids L)))"
    by (auto dest: in_set_takeD)
  with TopOK show ?thesis by (simp add: requested_sendDelta)
qed (simp_all add: sendDeltaHackerNewsStories_def emit_def)

lemma newStoryIDs_deltaStory:
  "\<forall>n i s. item e n i = ItemOK s \<longrightarrow> ID s = i \<Longrightarrow>
   newStoryIDsOf (written (deltaStory e w n i)) = [] \<or>
   newStoryIDsOf (written (deltaStory e w n i)) = [i]"
  by (auto simp: deltaStory_def emit_def split: item_response.splits option.splits)

lemma newStoryIDs_deltaStories:
  "\<forall>n i s. item e n i = ItemOK s \<longrightarrow> ID s = i \<Longrightarrow>
   subseq (newStoryIDsOf (written (deltaStories e w n xs))) xs"
proof (induction xs arbitrary: n)
  case Nil
  show ?case by simp
next
  case (Cons i xs)
  from Cons.prems have "subseq (newStoryIDsOf (written (deltaStories e w (Suc n) xs))) xs"
    by (rule Cons.IH)
  with newStoryIDs_deltaStory [OF Cons.prems, of w n i] show ?case
    by (auto simp: written_append newStoryIDsOf_append)
qed

lemma newStoryIDs_sendDelta:
  "\<forall>n i s. item e n i = ItemOK s \<longrightarrow> ID s = i \<Longrightarrow>
   subseq (newStoryIDsOf (written (fst (sendDeltaHackerNewsStories e w ids))))
          (requested (fst (sendDeltaHackerNewsStories e w ids)))"
proof (cases "topstories e")
  case (TopOK L)
  assume f: "\<forall>n i s. item e n i = ItemOK s \<longrightarrow> ID s = i"
  show ?thesis
  proof (cases "fst (markAndDiff ids L) = []")
    case True
    with TopOK show ?thesis by (simp add: fst_sendDelta_empty emit_def)
  next
    case False
    with TopOK newStoryIDs_deltaStories [OF f, of w 0] show ?thesis
      by (simp add: fst_sendDelta_ok requested_deltaStories)
  qed
qed (simp_all add: sendDeltaHackerNewsStories_def emit_def)

lemma run_nth:
  "k < length cs \<Longrightarrow>
   fst (run cs ids) ! k = fst (exec (cs ! k) (snd (run (take k cs) ids)))"
proof (induction cs arbitrary: k ids)
  case Nil
  then show ?case by simp
next
  case (Cons c cs)
  show ?case
  proof (cases k)
    case 0
    then show ?thesis by (simp add: split_beta)
  next
    case (Suc k')
    with Cons.prems have "k' < length cs" by simp
    from Cons.IH [OF this, of "snd (exec c ids)"] Suc show ?thesis
      by (simp add: split_beta)
  qed
qed

lemma length_run: "length (fst (run cs ids)) = length cs"
  by (induction cs arbitrary: ids) (simp_all add: split_beta)

lemma newStory_sendDelta:
  "length (filter isNewStory (written (fst (sendDeltaHackerNewsStories e w ids)))) \<le> 5"
proof (cases "topstories e")
  case (TopOK L)
  show ?thesis
  proof (cases "fst (markAndDiff ids L) = []")
    case True
    with TopOK show ?thesis by (simp add: fst_sendDelta_empty emit_def)
  next
    case False
    have "length (filter isNewStory (written (deltaStories e w 0
            (take maxNewStoriesToSend (fst (markAndDiff ids L))))))
          \<le> length (take maxNewStoriesToSend (fst (markAndDiff ids L)))"
      by (rule newStory_deltaStories)
    also have "\<dots> \<le> 5" by (simp add: maxNewStoriesToSend_def)
    finally show ?thesis using TopOK False by (simp add: fst_sendDelta_ok)
  qed
qed (simp_all add: sendDeltaHackerNewsStories_def emit_def)

lemma later_cycle_fresh:
  assumes x: "ids x = Some ()" and k: "k < length cs" and c: "cs ! k = DeltaCall w e"
  shows "x \<notin> set (requested (fst (run cs ids) ! k))"
    and "\<forall>n i s. item e n i = ItemOK s \<longrightarrow> ID s = i \<Longrightarrow>
         x \<notin> set (newStoryIDsOf (written (fst (run cs ids) ! k)))"
proof -
  let ?ids = "snd (run (take k cs) ids)"
  from x have "?ids x = Some ()" by (rule run_mono)
  then have r: "x \<notin> set (requested (fst (sendDeltaHackerNewsStories e w ?ids)))"
    by (rule requested_sendDelta_fresh)
  from k c have tr: "fst (run cs ids) ! k = fst (sendDeltaHackerNewsStories e w ?ids)"
    by (simp add: run_nth)
  from r tr show "x \<notin> set (requested (fst (run cs ids) ! k))" by simp
  assume "\<forall>n i s. item e n i = ItemOK s \<longrightarrow> ID s = i"
  then have "subseq (newStoryIDsOf (written (fst (sendDeltaHackerNewsStories e w ?ids))))
          (requested (fst (sendDeltaHackerNewsStories e w ?ids)))"
    by (rule newStoryIDs_sendDelta)
  then have "set (newStoryIDsOf (written (fst (sendDeltaHackerNewsStories e w ?ids))))
      \<subseteq> set (requested (fst (sendDeltaHackerNewsStories e w ?ids)))"
    by (auto elim: list_emb_set)
  with r tr show "x \<notin> set (newStoryIDsOf (written (fst (run cs ids) ! k)))" by auto
qed

section \<open>Writes on a closed transport\<close>

lemma attempt_initialStory:
  "map attempt (fst (initialStory e w n i ids)) = map attempt (fst (initialStory e w' n i ids))
   \<and> snd (initialStory e w n i ids) = snd (initialStory e w' n i ids)"
  by (simp add: initialStory_def emit_def split: item_response.splits option.splits)

lemma attempt_initialStories:
  "map attempt (fst (initialStories e w n xs ids)) = map attempt (fst (initialStories e w' n xs ids))
   \<and> snd (initialStories e w n xs ids) = snd (initialStories e w' n xs ids)"
proof (induction xs arbitrary: n ids)
  case Nil
  show ?case by simp
next
  case (Cons i xs)
  from attempt_initialStory [of e w n i ids w']
    Cons.IH [of "Suc n" "snd (initialStory e w' n i ids)"]
  show ?case by (simp add: split_beta)
qed

lemma attempt_sendInitial:
  "map attempt (fst (sendInitialHackerNewsStories e w ids))
     = map attempt (fst (sendInitialHackerNewsStories e w' ids))
   \<and> snd (sendInitialHackerNewsStories e w ids) = snd (sendInitialHackerNewsStories e w' ids)"
  using attempt_initialStories [of e w 0 _ ids w']
  by (simp add: sendInitialHackerNewsStories_def split_beta Let_def emit_def
        split: top_response.splits)

lemma closed_deltaStory:
  "Write ev r \<in> set (deltaStory e Closed n i) \<Longrightarrow> r = Some WriteError"
  by (auto simp: deltaStory_def emit_def split: item_response.splits option.splits if_splits)

lemma closed_deltaStories:
  "Write ev r \<in> set (deltaStories e Closed n xs) \<Longrightarrow> r = Some WriteError"
  by (induction xs arbitrary: n) (auto dest: closed_deltaStory)

lemma closed_sendDelta:
  "Write ev r \<in> set (fst (sendDeltaHackerNewsStories e Closed ids)) \<Longrightarrow> r = Some WriteError"
  by (auto simp: sendDeltaHackerNewsStories_def split_beta emit_def
        split: top_response.splits if_splits dest: closed_deltaStories)

lemma closed_initialStory:
  "Write ev r \<in> set (fst (initialStory e Closed n i ids)) \<Longrightarrow> r = Some WriteError"
  by (auto simp: initialStory_def emit_def split: item_response.splits option.splits if_splits)

lemma closed_initialStories:
  "Write ev r \<in> set (fst (initialStories e Closed n xs ids)) \<Longrightarrow> r = Some WriteError"
  by (induction xs arbitrary: n ids) (auto simp: split_beta dest: closed_initialStory)

lemma closed_sendInitial:
  "Write ev r \<in> set (fst (sendInitialHackerNewsStories e Closed ids)) \<Longrightarrow> r = Some WriteError"
  by (auto simp: sendInitialHackerNewsStories_def split_beta Let_def emit_def
        split: top_response.splits if_splits dest: closed_initialStories)

section \<open>The deltas of a run\<close>

lemma deltas_nth:
  "k < length cs \<Longrightarrow> deltas cs ids ! k = deltaOf (cs ! k) (snd (run (take k cs) ids))"
proof (induction cs arbitrary: k ids)
  case Nil
  then show ?case by simp
next
  case (Cons c cs)
  show ?case
  proof (cases k)
    case 0
    then show ?thesis by simp
  next
    case (Suc k')
    with Cons.prems have "k' < length cs" by simp
    from Cons.IH [OF this, of "snd (exec c ids)"] Suc show ?thesis
      by (simp add: split_beta)
  qed
qed

lemma requested_exec_delta:
  "requested (fst (exec (DeltaCall w e) ids)) = take maxNewStoriesToSend (deltaOf (DeltaCall w e) ids)"
proof (cases "topstories e")
  case (TopOK L)
  then show ?thesis by (simp add: requested_sendDelta)
qed (simp_all add: sendDeltaHackerNewsStories_def emit_def)

lemma requested_run_delta:
  "k < length cs \<Longrightarrow> cs ! k = DeltaCall w e \<Longrightarrow>
   requested (fst (run cs ids) ! k) = take maxNewStoriesToSend (deltas cs ids ! k)"
  using requested_exec_delta [of w e "snd (run (take k cs) ids)"]
  by (simp add: run_nth deltas_nth)

section \<open>Claims\<close>

text \<open>
  C1, as amended. For every sequence of candidate identifiers and every prior seen set,
  the delta computation returns the candidates that were absent from the seen set at the
  start of the call, in input order, each of them once, at its first occurrence; when no
  candidate is repeated this is exactly the subsequence of the absent candidates. After
  the call every candidate, new or not, is in the seen set, and nothing else was added.
\<close>

theorem C1_markAndDiff_contract:
  "fst (markAndDiff ids xs) = firsts (filter (\<lambda>i. ids i = None) xs)
   \<and> (distinct xs \<longrightarrow> fst (markAndDiff ids xs) = filter (\<lambda>i. ids i = None) xs)
   \<and> dom (snd (markAndDiff ids xs)) = dom ids \<union> set xs"
  by (simp add: markAndDiff_fst markAndDiff_dom firsts_distinct)

theorem C1_markAndDiff_contract_witness:
  "distinct [4, 1, 5 :: int]
   \<and> fst (markAndDiff (init(1 \<mapsto> ())) [4, 1, 5]) = [4, 5]
   \<and> dom (snd (markAndDiff (init(1 \<mapsto> ())) [4, 1, 5])) = {1, 4, 5}"
  using C1_markAndDiff_contract [of "init(1 \<mapsto> ())" "[4, 1, 5]"]
  by (auto simp: init_def)

text \<open>
  C1 as written fails when a candidate is repeated: from the empty seen set the candidates
  7, 7 were both absent at the start of the call, so the claim asks for 7, 7, and the call
  returns 7 once.
\<close>

theorem C1_repeated_candidate_counterexample:
  "fst (markAndDiff init [7, 7]) = [7] \<and> fst (markAndDiff init [7, 7]) \<noteq> [7, 7]"
  by (simp add: markAndDiff_def init_def)

text \<open>
  C3. The map is empty when the process starts. An identifier that is in the map stays in
  it through an initial batch, through a periodic cycle (its error paths included),
  through a whole session and through any sequence of calls of any sessions; nothing in
  the program removes a key. Inserting an identifier that is already present leaves the
  map as it was.
\<close>

theorem C3_seen_set_monotone:
  "dom init = {}
   \<and> (ids x = Some () \<longrightarrow>
        snd (sendInitialHackerNewsStories e w ids) x = Some ()
        \<and> snd (sendDeltaHackerNewsStories e w ids) x = Some ()
        \<and> snd (hnEventsHandler ok w e later ids) x = Some ()
        \<and> snd (run cs ids) x = Some ()
        \<and> ids(x \<mapsto> ()) = ids)"
  using sendInitial_mono [of ids x e w] sendDelta_mono [of ids x e w]
    hnEventsHandler_mono [of ids x ok w e later] run_mono [of ids x cs]
    seen_upd_idem [of ids x]
  by (simp add: init_def)

theorem C3_seen_set_monotone_witness:
  "(init(1 \<mapsto> ())) 1 = Some ()
   \<and> snd (sendInitialHackerNewsStories (storiesEnv (TopOK [2, 3])) Open (init(1 \<mapsto> ()))) 1 = Some ()
   \<and> snd (sendDeltaHackerNewsStories (storiesEnv (TopOK [2, 3])) Open (init(1 \<mapsto> ()))) 1 = Some ()
   \<and> snd (sendDeltaHackerNewsStories (storiesEnv TopFetchFailed) Open (init(1 \<mapsto> ()))) 1 = Some ()
   \<and> (init(1 \<mapsto> ()))(1 \<mapsto> ()) = init(1 \<mapsto> ())"
  using C3_seen_set_monotone [of "init(1 \<mapsto> ())" 1 "storiesEnv (TopOK [2, 3])" Open]
    C3_seen_set_monotone [of "init(1 \<mapsto> ())" 1 "storiesEnv TopFetchFailed" Open]
  by simp

text \<open>
  C2. Take any sequence of calls of any sessions on the shared map, each run to its end
  before the next starts, as the mutex makes them: periodic cycles, with initial batches
  of other sessions between them. \<open>deltas\<close> lists the \<^verbatim>\<open>newStoryIDs\<close> the calls compute;
  what a periodic cycle fetches and delivers is the first five of its entry. These
  results never share an identifier: put one after the other they contain no identifier
  twice, so the results of two different calls are disjoint.
\<close>

theorem C2_at_most_once:
  "length (deltas cs ids) = length cs
   \<and> (\<forall>k < length cs. \<forall>w e. cs ! k = DeltaCall w e \<longrightarrow>
        requested (fst (run cs ids) ! k) = take maxNewStoriesToSend (deltas cs ids ! k))
   \<and> distinct (concat (deltas cs ids))
   \<and> (\<forall>j < length cs. \<forall>k < j. set (deltas cs ids ! k) \<inter> set (deltas cs ids ! j) = {})"
  using concat_disjoint_nth [OF deltas_distinct [of cs ids]]
  by (simp add: length_deltas deltas_distinct requested_run_delta)

theorem C2_at_most_once_witness:
  "(1::nat) < length [DeltaCall Open (storiesEnv (TopOK [1, 2, 3])),
                      DeltaCall Closed (storiesEnv (TopOK [2, 3, 4]))]
   \<and> deltas [DeltaCall Open (storiesEnv (TopOK [1, 2, 3])),
               DeltaCall Closed (storiesEnv (TopOK [2, 3, 4]))] init = [[1, 2, 3], [4]]
   \<and> set (deltas [DeltaCall Open (storiesEnv (TopOK [1, 2, 3])),
                    DeltaCall Closed (storiesEnv (TopOK [2, 3, 4]))] init ! 0)
       \<inter> set (deltas [DeltaCall Open (storiesEnv (TopOK [1, 2, 3])),
                        DeltaCall Closed (storiesEnv (TopOK [2, 3, 4]))] init ! 1) = {}"
  using C2_at_most_once [of "[DeltaCall Open (storiesEnv (TopOK [1, 2, 3])),
                              DeltaCall Closed (storiesEnv (TopOK [2, 3, 4]))]" init]
  by (simp add: markAndDiff_def storiesEnv_def init_def snd_sendDelta)

text \<open>
  C4, as amended. For all identifier sequences \<open>A\<close> and \<open>B\<close> (whether or not \<open>A\<close> is
  within \<open>B\<close>), the delta of \<open>B\<close> computed after the delta of \<open>A\<close> is the identifiers
  of \<open>B\<close> that are neither in \<open>A\<close> nor in the seen set before the first call, in the
  order of \<open>B\<close>, each once at its first occurrence; from the empty seen set, and for
  \<open>B\<close> without a repeated identifier, this is exactly \<open>B\<close> without the elements of
  \<open>A\<close>. From the empty seen set the delta of \<open>X\<close> is \<open>X\<close> with every identifier kept at
  its first occurrence only, which is \<open>X\<close> itself when \<open>X\<close> repeats no identifier; the
  delta of \<open>X\<close> computed right after it is empty, from any seen set.
\<close>

theorem C4_delta_algebra:
  "fst (markAndDiff (snd (markAndDiff ids A)) B)
     = firsts (filter (\<lambda>i. i \<notin> set A \<and> ids i = None) B)
   \<and> fst (markAndDiff (snd (markAndDiff init A)) B) = firsts (filter (\<lambda>i. i \<notin> set A) B)
   \<and> (distinct B \<longrightarrow>
        fst (markAndDiff (snd (markAndDiff init A)) B) = filter (\<lambda>i. i \<notin> set A) B)
   \<and> fst (markAndDiff init X) = firsts X
   \<and> (distinct X \<longrightarrow> fst (markAndDiff init X) = X)
   \<and> fst (markAndDiff (snd (markAndDiff ids X)) X) = []"
proof -
  have a: "fst (markAndDiff (snd (markAndDiff init A)) B) = firsts (filter (\<lambda>i. i \<notin> set A) B)"
    using markAndDiff_after [of init A B] by (simp add: init_def)
  have b: "fst (markAndDiff init X) = firsts X"
    using markAndDiff_fst [of init X] by (simp add: init_def)
  from a have c: "distinct B \<longrightarrow>
      fst (markAndDiff (snd (markAndDiff init A)) B) = filter (\<lambda>i. i \<notin> set A) B"
    by (simp add: firsts_distinct)
  from b have d: "distinct X \<longrightarrow> fst (markAndDiff init X) = X"
    by (simp add: firsts_distinct)
  from a b c d markAndDiff_after [of ids A B] markAndDiff_twice [of ids X]
  show ?thesis by blast
qed

theorem C4_delta_algebra_witness:
  "distinct [1, 2, 3, 4 :: int]
   \<and> fst (markAndDiff (snd (markAndDiff init [3, 1])) [1, 2, 3, 4]) = [2, 4]
   \<and> fst (markAndDiff init [1, 2, 3, 4]) = [1, 2, 3, 4]
   \<and> fst (markAndDiff (snd (markAndDiff init [1, 2, 3, 4])) [1, 2, 3, 4]) = []"
  using C4_delta_algebra [of init "[3, 1]" "[1, 2, 3, 4]" "[1, 2, 3, 4]"]
  by (simp add: init_def)

text \<open>
  C4 as written fails when \<open>X\<close> repeats an identifier: from the empty seen set the first
  delta of 3, 3 is 3 alone, not 3, 3.
\<close>

theorem C4_repeated_identifier_counterexample:
  "fst (markAndDiff init [3, 3]) = [3] \<and> fst (markAndDiff init [3, 3]) \<noteq> [3, 3]"
  by (simp add: markAndDiff_def init_def)

text \<open>
  C5. When the list fetch or the decoding of the list fails in a periodic cycle, the only
  thing written to the session is one \<^verbatim>\<open>error\<close> event (so no \<^verbatim>\<open>new-story\<close> and no
  \<^verbatim>\<open>no-new-data\<close>), no item is fetched, and the seen set is the one the cycle started with;
  the delta the next cycle computes for a list is therefore the one it would have
  computed had the failed cycle not run.
\<close>

theorem C5_list_failure:
  "(topstories e = TopFetchFailed \<longrightarrow>
      written (fst (sendDeltaHackerNewsStories e w ids)) = [ErrorEvent FetchError])
   \<and> (topstories e = TopDecodeFailed \<longrightarrow>
      written (fst (sendDeltaHackerNewsStories e w ids)) = [ErrorEvent DecodeError])
   \<and> (topstories e = TopFetchFailed \<or> topstories e = TopDecodeFailed \<longrightarrow>
        requested (fst (sendDeltaHackerNewsStories e w ids)) = []
        \<and> snd (sendDeltaHackerNewsStories e w ids) = ids
        \<and> markAndDiff (snd (sendDeltaHackerNewsStories e w ids)) L = markAndDiff ids L)"
  by (auto simp: sendDeltaHackerNewsStories_def emit_def)

theorem C5_list_failure_witness:
  "topstories (storiesEnv TopFetchFailed) = TopFetchFailed
   \<and> topstories (storiesEnv TopDecodeFailed) = TopDecodeFailed
   \<and> written (fst (sendDeltaHackerNewsStories (storiesEnv TopFetchFailed) Open (init(1 \<mapsto> ()))))
       = [ErrorEvent FetchError]
   \<and> written (fst (sendDeltaHackerNewsStories (storiesEnv TopDecodeFailed) Open (init(1 \<mapsto> ()))))
       = [ErrorEvent DecodeError]
   \<and> snd (sendDeltaHackerNewsStories (storiesEnv TopFetchFailed) Open (init(1 \<mapsto> ()))) = init(1 \<mapsto> ())
   \<and> snd (sendDeltaHackerNewsStories (storiesEnv TopDecodeFailed) Open (init(1 \<mapsto> ()))) = init(1 \<mapsto> ())"
  using C5_list_failure [of "storiesEnv TopFetchFailed" Open "init(1 \<mapsto> ())" "[]"]
    C5_list_failure [of "storiesEnv TopDecodeFailed" Open "init(1 \<mapsto> ())" "[]"]
  by (simp add: storiesEnv_def)

text \<open>
  C8. When the list fetch of a periodic cycle succeeds and the delta is empty, which is
  the case exactly when every fetched identifier is already in the seen set, the only
  thing written to the session is one \<^verbatim>\<open>no-new-data\<close> event, no item is fetched, and the
  seen set is the one the cycle started with.
\<close>

theorem C8_heartbeat:
  "topstories e = TopOK L \<Longrightarrow>
   (fst (markAndDiff ids L) = []) = (\<forall>i \<in> set L. ids i = Some ())
   \<and> (fst (markAndDiff ids L) = [] \<longrightarrow>
        written (fst (sendDeltaHackerNewsStories e w ids)) = [NoNewData]
        \<and> requested (fst (sendDeltaHackerNewsStories e w ids)) = []
        \<and> snd (sendDeltaHackerNewsStories e w ids) = ids)"
  by (simp add: markAndDiff_empty_iff [symmetric] fst_sendDelta_empty emit_def snd_sendDelta
        markAndDiff_all_seen)

theorem C8_heartbeat_witness:
  "topstories (storiesEnv (TopOK [1, 2, 3])) = TopOK [1, 2, 3]
   \<and> fst (markAndDiff (init(1 \<mapsto> (), 2 \<mapsto> (), 3 \<mapsto> ())) [1, 2, 3]) = []
   \<and> written (fst (sendDeltaHackerNewsStories (storiesEnv (TopOK [1, 2, 3])) Open
         (init(1 \<mapsto> (), 2 \<mapsto> (), 3 \<mapsto> ())))) = [NoNewData]
   \<and> snd (sendDeltaHackerNewsStories (storiesEnv (TopOK [1, 2, 3])) Open
         (init(1 \<mapsto> (), 2 \<mapsto> (), 3 \<mapsto> ()))) = init(1 \<mapsto> (), 2 \<mapsto> (), 3 \<mapsto> ())"
  using C8_heartbeat [of "storiesEnv (TopOK [1, 2, 3])" "[1, 2, 3]"
      "init(1 \<mapsto> (), 2 \<mapsto> (), 3 \<mapsto> ())" Open]
  by (simp add: storiesEnv_def)

text \<open>
  C10. When the list fetch of a periodic cycle succeeds, the delta is not empty, and every
  item of the delta cut to five is fetched and decoded but is not a complete story (its
  type is not \<^verbatim>\<open>story\<close>, or its title or its URL is empty), nothing at all is written to
  the session in that cycle: no \<^verbatim>\<open>new-story\<close>, no \<^verbatim>\<open>no-new-data\<close>, no error event.
\<close>

theorem C10_silent_cycle:
  "topstories e = TopOK L \<Longrightarrow> fst (markAndDiff ids L) \<noteq> [] \<Longrightarrow>
   \<forall>k < length (take maxNewStoriesToSend (fst (markAndDiff ids L))).
      \<exists>s. item e k (take maxNewStoriesToSend (fst (markAndDiff ids L)) ! k) = ItemOK s
        \<and> (Type s \<noteq> ''story'' \<or> Title s = '''' \<or> URL s = '''') \<Longrightarrow>
   written (fst (sendDeltaHackerNewsStories e w ids)) = []"
  using written_deltaStories_skipped [of "take maxNewStoriesToSend (fst (markAndDiff ids L))" e 0 w]
  by (simp add: fst_sendDelta_ok)

theorem C10_silent_cycle_witness:
  "topstories (jobsEnv (TopOK [1, 2])) = TopOK [1, 2]
   \<and> fst (markAndDiff init [1, 2]) \<noteq> []
   \<and> written (fst (sendDeltaHackerNewsStories (jobsEnv (TopOK [1, 2])) Open init)) = []"
proof -
  have t: "topstories (jobsEnv (TopOK [1, 2])) = TopOK [1, 2]"
    by (simp add: jobsEnv_def)
  have d: "fst (markAndDiff init [1, 2]) = [1, 2]"
    by (simp add: markAndDiff_def init_def)
  then have n: "fst (markAndDiff init [1, 2]) \<noteq> []" by simp
  have s: "\<forall>k < length (take maxNewStoriesToSend (fst (markAndDiff init [1, 2]))).
      \<exists>s. item (jobsEnv (TopOK [1, 2])) k (take maxNewStoriesToSend (fst (markAndDiff init [1, 2])) ! k) = ItemOK s
        \<and> (Type s \<noteq> ''story'' \<or> Title s = '''' \<or> URL s = '''')"
    by (simp add: d jobsEnv_def jobOf_def)
  from t n C10_silent_cycle [OF t n s, of Open] show ?thesis by simp
qed

text \<open>
  C6, as amended. For every session whose initial list fetch succeeds with list \<open>L\<close>, the
  initial phase requests exactly the first min(|L|, 10) identifiers, in order, and puts
  into the seen set the identifier of every item it delivers as a \<^verbatim>\<open>new-story\<close> event, and
  nothing else: an identifier whose item is not delivered is not inserted. When every
  item of the truncated batch is fetched, decoded, a complete story carrying the
  identifier it was asked by, and encoded, each is delivered in order and the seen set
  afterwards contains every identifier of the batch.
\<close>

theorem C6_initial_seeding:
  "topstories e = TopOK L \<Longrightarrow>
   requested (fst (sendInitialHackerNewsStories e w ids)) = take initialStoriesLimit L
   \<and> length (take initialStoriesLimit L) = min (length L) 10
   \<and> dom (snd (sendInitialHackerNewsStories e w ids))
       = dom ids \<union> set (newStoryIDsOf (written (fst (sendInitialHackerNewsStories e w ids))))
   \<and> ((\<forall>k < length (take initialStoriesLimit L).
          \<exists>s js. item e k (take initialStoriesLimit L ! k) = ItemOK s
            \<and> ID s = take initialStoriesLimit L ! k
            \<and> Type s = ''story'' \<and> Title s \<noteq> '''' \<and> URL s \<noteq> '''' \<and> marshal e s = Some js)
        \<longrightarrow> newStoryIDsOf (written (fst (sendInitialHackerNewsStories e w ids)))
              = take initialStoriesLimit L
          \<and> set (take initialStoriesLimit L) \<subseteq> dom (snd (sendInitialHackerNewsStories e w ids)))"
proof -
  assume t: "topstories e = TopOK L"
  let ?xs = "take initialStoriesLimit L"
  have a: "requested (fst (sendInitialHackerNewsStories e w ids)) = ?xs"
    using t by (simp add: fst_sendInitial requested_initialStories)
  have b: "length ?xs = min (length L) 10"
    by (simp add: initialStoriesLimit_def)
  have c: "dom (snd (sendInitialHackerNewsStories e w ids))
       = dom ids \<union> set (newStoryIDsOf (written (fst (sendInitialHackerNewsStories e w ids))))"
    using t dom_initialStories [of e w 0 ?xs ids] by (simp add: fst_sendInitial snd_sendInitial)
  have d: "newStoryIDsOf (written (fst (sendInitialHackerNewsStories e w ids))) = ?xs"
    if "\<forall>k < length ?xs. \<exists>s js. item e k (?xs ! k) = ItemOK s \<and> ID s = ?xs ! k
            \<and> Type s = ''story'' \<and> Title s \<noteq> '''' \<and> URL s \<noteq> '''' \<and> marshal e s = Some js"
    using t initialStories_delivered [of ?xs e 0 w ids] that by (simp add: fst_sendInitial)
  from a b c d show ?thesis by auto
qed

theorem C6_initial_seeding_witness:
  "topstories (storiesEnv (TopOK [1, 2, 3])) = TopOK [1, 2, 3]
   \<and> requested (fst (sendInitialHackerNewsStories (storiesEnv (TopOK [1, 2, 3])) Open init)) = [1, 2, 3]
   \<and> newStoryIDsOf (written (fst (sendInitialHackerNewsStories (storiesEnv (TopOK [1, 2, 3])) Open init)))
       = [1, 2, 3]
   \<and> {1, 2, 3} \<subseteq> dom (snd (sendInitialHackerNewsStories (storiesEnv (TopOK [1, 2, 3])) Open init))"
proof -
  have t: "topstories (storiesEnv (TopOK [1, 2, 3])) = TopOK [1, 2, 3]"
    by (simp add: storiesEnv_def)
  have k: "take initialStoriesLimit [1, 2, 3 :: int] = [1, 2, 3]"
    by (simp add: initialStoriesLimit_def)
  have h: "\<forall>k < length (take initialStoriesLimit [1, 2, 3 :: int]).
          \<exists>s js. item (storiesEnv (TopOK [1, 2, 3])) k (take initialStoriesLimit [1, 2, 3] ! k) = ItemOK s
            \<and> ID s = take initialStoriesLimit [1, 2, 3] ! k
            \<and> Type s = ''story'' \<and> Title s \<noteq> '''' \<and> URL s \<noteq> ''''
            \<and> marshal (storiesEnv (TopOK [1, 2, 3])) s = Some js"
    by (simp add: storiesEnv_def storyOf_def)
  from t h C6_initial_seeding [OF t, of Open init] show ?thesis
    unfolding k by simp
qed

text \<open>
  C6 as written fails when an item of the batch is not delivered. With the list 1, 2, 3
  and item 2 a job posting, the initial phase requests all three items and the seen set
  afterwards does not contain 2.
\<close>

theorem C6_skipped_item_counterexample:
  "topstories (jobEnv (TopOK [1, 2, 3])) = TopOK [1, 2, 3]
   \<and> requested (fst (sendInitialHackerNewsStories (jobEnv (TopOK [1, 2, 3])) Open init)) = [1, 2, 3]
   \<and> snd (sendInitialHackerNewsStories (jobEnv (TopOK [1, 2, 3])) Open init) 2 = None
   \<and> 2 \<notin> dom (snd (sendInitialHackerNewsStories (jobEnv (TopOK [1, 2, 3])) Open init))"
  by (simp add: sendInitialHackerNewsStories_def initialStoriesLimit_def initialStory_def
        jobEnv_def jobOf_def storyOf_def emit_def init_def)

text \<open>
  C7. In a periodic cycle whose list fetch succeeds with list \<open>L\<close>: at most five
  \<^verbatim>\<open>new-story\<close> events are written; the items fetched are the first five new identifiers,
  in the order of the list, and the \<^verbatim>\<open>new-story\<close> events follow that order when the feed
  answers each request with the item asked for; every identifier of \<open>L\<close> is in the seen
  set afterwards, the new ones beyond the fifth included, although the cycle does not
  fetch them. Hence no later periodic cycle of any session, whatever calls come in
  between, fetches the item of an identifier of \<open>L\<close>, and none writes a \<^verbatim>\<open>new-story\<close>
  event with such an identifier when the feed answers with the item asked for.
\<close>

theorem C7_bound_versus_marking:
  "topstories e = TopOK L \<Longrightarrow>
   length (filter isNewStory (written (fst (sendDeltaHackerNewsStories e w ids)))) \<le> 5
   \<and> requested (fst (sendDeltaHackerNewsStories e w ids)) = take 5 (fst (markAndDiff ids L))
   \<and> subseq (requested (fst (sendDeltaHackerNewsStories e w ids))) L
   \<and> ((\<forall>n i s. item e n i = ItemOK s \<longrightarrow> ID s = i) \<longrightarrow>
        subseq (newStoryIDsOf (written (fst (sendDeltaHackerNewsStories e w ids))))
               (requested (fst (sendDeltaHackerNewsStories e w ids))))
   \<and> dom (snd (sendDeltaHackerNewsStories e w ids)) = dom ids \<union> set L
   \<and> (\<forall>x \<in> set (drop 5 (fst (markAndDiff ids L))).
        x \<in> set L \<and> x \<notin> set (requested (fst (sendDeltaHackerNewsStories e w ids))))
   \<and> (\<forall>x \<in> set L. \<forall>cs k w' e'. k < length cs \<and> cs ! k = DeltaCall w' e' \<longrightarrow>
        x \<notin> set (requested (fst (run cs (snd (sendDeltaHackerNewsStories e w ids))) ! k))
        \<and> ((\<forall>n i s. item e' n i = ItemOK s \<longrightarrow> ID s = i) \<longrightarrow>
             x \<notin> set (newStoryIDsOf
                 (written (fst (run cs (snd (sendDeltaHackerNewsStories e w ids))) ! k)))))"
proof -
  assume t: "topstories e = TopOK L"
  let ?new = "fst (markAndDiff ids L)"
  let ?tr = "fst (sendDeltaHackerNewsStories e w ids)"
  let ?ids' = "snd (sendDeltaHackerNewsStories e w ids)"
  have a: "length (filter isNewStory (written ?tr)) \<le> 5"
    by (rule newStory_sendDelta)
  have b: "requested ?tr = take 5 ?new"
    using t by (simp add: requested_sendDelta maxNewStoriesToSend_def)
  have "subseq (take 5 ?new) ?new"
    using subseq_rev_drop_many [of "take 5 ?new" "take 5 ?new" "drop 5 ?new"] by simp
  then have "subseq (take 5 ?new) L"
    by (rule subseq_order.trans) (rule markAndDiff_subseq)
  with b have c: "subseq (requested ?tr) L" by simp
  have d: "(\<forall>n i s. item e n i = ItemOK s \<longrightarrow> ID s = i) \<longrightarrow>
        subseq (newStoryIDsOf (written ?tr)) (requested ?tr)"
    by (simp add: newStoryIDs_sendDelta)
  have f: "dom ?ids' = dom ids \<union> set L"
    using t by (simp add: dom_sendDelta)
  have "distinct (take 5 ?new @ drop 5 ?new)"
    by (simp add: markAndDiff_distinct)
  then have "set (take 5 ?new) \<inter> set (drop 5 ?new) = {}"
    by (simp only: distinct_append)
  moreover have "set (drop 5 ?new) \<subseteq> set L"
    using set_drop_subset [of 5 ?new] markAndDiff_set [of ids L] by auto
  ultimately have g: "\<forall>x \<in> set (drop 5 ?new). x \<in> set L \<and> x \<notin> set (requested ?tr)"
    using b by auto
  have h: "x \<notin> set (requested (fst (run cs ?ids') ! k))
        \<and> ((\<forall>n i s. item e' n i = ItemOK s \<longrightarrow> ID s = i) \<longrightarrow>
             x \<notin> set (newStoryIDsOf (written (fst (run cs ?ids') ! k))))"
    if "x \<in> set L" "k < length cs" "cs ! k = DeltaCall w' e'" for x cs k w' e'
  proof -
    from that(1) f have "?ids' x = Some ()" by auto
    with later_cycle_fresh [of ?ids' x k cs w' e'] that(2) that(3) show ?thesis by simp
  qed
  from a b c d f g h show ?thesis by blast
qed

theorem C7_bound_versus_marking_witness:
  "topstories (storiesEnv (TopOK [1, 2, 3, 4, 5, 6, 7])) = TopOK [1, 2, 3, 4, 5, 6, 7]
   \<and> requested (fst (sendDeltaHackerNewsStories (storiesEnv (TopOK [1, 2, 3, 4, 5, 6, 7])) Open init))
       = [1, 2, 3, 4, 5]
   \<and> newStoryIDsOf (written
         (fst (sendDeltaHackerNewsStories (storiesEnv (TopOK [1, 2, 3, 4, 5, 6, 7])) Open init)))
       = [1, 2, 3, 4, 5]
   \<and> dom (snd (sendDeltaHackerNewsStories (storiesEnv (TopOK [1, 2, 3, 4, 5, 6, 7])) Open init))
       = {1, 2, 3, 4, 5, 6, 7}
   \<and> 6 \<notin> set (requested (fst (run [DeltaCall Open (storiesEnv (TopOK [6, 8]))]
         (snd (sendDeltaHackerNewsStories (storiesEnv (TopOK [1, 2, 3, 4, 5, 6, 7])) Open init))) ! 0))
   \<and> 6 \<notin> set (newStoryIDsOf (written (fst (run [DeltaCall Open (storiesEnv (TopOK [6, 8]))]
         (snd (sendDeltaHackerNewsStories (storiesEnv (TopOK [1, 2, 3, 4, 5, 6, 7])) Open init))) ! 0)))"
proof -
  let ?e = "storiesEnv (TopOK [1, 2, 3, 4, 5, 6, 7])"
  let ?e' = "storiesEnv (TopOK [6, 8])"
  have t: "topstories ?e = TopOK [1, 2, 3, 4, 5, 6, 7]"
    by (simp add: storiesEnv_def)
  have m: "fst (markAndDiff init [1, 2, 3, 4, 5, 6, 7]) = [1, 2, 3, 4, 5, 6, 7]"
    by (simp add: markAndDiff_def init_def)
  have faithful: "\<forall>n i s. item ?e' n i = ItemOK s \<longrightarrow> ID s = i"
    by (auto simp: storiesEnv_def storyOf_def)
  have ev: "newStoryIDsOf (written (fst (sendDeltaHackerNewsStories ?e Open init))) = [1, 2, 3, 4, 5]"
    using t m by (simp add: fst_sendDelta_ok maxNewStoriesToSend_def deltaStory_def
        storiesEnv_def storyOf_def emit_def)
  note c7 = C7_bound_versus_marking [OF t, of Open init]
  from c7 m have r: "requested (fst (sendDeltaHackerNewsStories ?e Open init)) = [1, 2, 3, 4, 5]"
    by simp
  from c7 have d: "dom (snd (sendDeltaHackerNewsStories ?e Open init)) = {1, 2, 3, 4, 5, 6, 7}"
    by (auto simp: init_def)
  from c7 have later: "\<forall>x \<in> set [1, 2, 3, 4, 5, 6, 7 :: int]. \<forall>cs k w' e'.
        k < length cs \<and> cs ! k = DeltaCall w' e' \<longrightarrow>
        x \<notin> set (requested (fst (run cs (snd (sendDeltaHackerNewsStories ?e Open init))) ! k))
        \<and> ((\<forall>n i s. item e' n i = ItemOK s \<longrightarrow> ID s = i) \<longrightarrow>
             x \<notin> set (newStoryIDsOf
                 (written (fst (run cs (snd (sendDeltaHackerNewsStories ?e Open init))) ! k))))"
    by (elim conjE)
  have "(6::int) \<in> set [1, 2, 3, 4, 5, 6, 7]" by simp
  from later [rule_format, OF this, of 0 "[DeltaCall Open ?e']" Open ?e'] faithful
  have "6 \<notin> set (requested (fst (run [DeltaCall Open ?e']
            (snd (sendDeltaHackerNewsStories ?e Open init))) ! 0))
      \<and> 6 \<notin> set (newStoryIDsOf (written (fst (run [DeltaCall Open ?e']
            (snd (sendDeltaHackerNewsStories ?e Open init))) ! 0)))"
    by simp
  with t r ev d show ?thesis by simp
qed

text \<open>
  C9, as amended. A write to a session whose transport is closed fails with a write
  error; it is not retried and nothing is buffered, and the code drops the error: the
  call in progress, initial batch or periodic cycle, goes on and issues exactly the feed
  fetches and the write attempts it issues on an open transport, with the same effect on
  the seen set. A tick selected while the transport is closed runs a whole cycle. The
  session's loop stops when it selects the cancellation of the request's context, and
  from then on issues no fetch and no write.
\<close>

theorem C9_write_error_ignored:
  "Fprintf Closed ev = Some WriteError
   \<and> map attempt (fst (sendDeltaHackerNewsStories e Closed ids))
       = map attempt (fst (sendDeltaHackerNewsStories e Open ids))
   \<and> snd (sendDeltaHackerNewsStories e Closed ids) = snd (sendDeltaHackerNewsStories e Open ids)
   \<and> map attempt (fst (sendInitialHackerNewsStories e Closed ids))
       = map attempt (fst (sendInitialHackerNewsStories e Open ids))
   \<and> snd (sendInitialHackerNewsStories e Closed ids) = snd (sendInitialHackerNewsStories e Open ids)
   \<and> (\<forall>ev' r. Write ev' r \<in> set (fst (sendDeltaHackerNewsStories e Closed ids))
                        \<union> set (fst (sendInitialHackerNewsStories e Closed ids))
        \<longrightarrow> r = Some WriteError)
   \<and> hnEventsLoop (TickerC Closed e # CtxDone # later) ids = sendDeltaHackerNewsStories e Closed ids
   \<and> hnEventsLoop (CtxDone # later) ids = ([], ids)"
proof -
  have a: "\<forall>ev' r. Write ev' r \<in> set (fst (sendDeltaHackerNewsStories e Closed ids))
                        \<union> set (fst (sendInitialHackerNewsStories e Closed ids))
        \<longrightarrow> r = Some WriteError"
    using closed_sendDelta closed_sendInitial by blast
  have b: "hnEventsLoop (TickerC Closed e # CtxDone # later) ids
      = sendDeltaHackerNewsStories e Closed ids"
    by (simp add: split_beta)
  from a b attempt_sendDelta [of e Closed ids Open] attempt_sendInitial [of e Closed ids Open]
  show ?thesis by (simp add: snd_sendDelta)
qed

theorem C9_write_error_ignored_witness:
  "map attempt (fst (sendDeltaHackerNewsStories (storiesEnv (TopOK [1, 2])) Closed init))
     = [GetTopStories, GetItem 1, Write (NewStory 1 ''{}'') None,
        GetItem 2, Write (NewStory 2 ''{}'') None]
   \<and> hnEventsLoop [CtxDone, TickerC Open (storiesEnv (TopOK [1, 2]))] init = ([], init)"
proof -
  have "map attempt (fst (sendDeltaHackerNewsStories (storiesEnv (TopOK [1, 2])) Open init))
     = [GetTopStories, GetItem 1, Write (NewStory 1 ''{}'') None,
        GetItem 2, Write (NewStory 2 ''{}'') None]"
    by (simp add: sendDeltaHackerNewsStories_def markAndDiff_def init_def maxNewStoriesToSend_def
        deltaStory_def storiesEnv_def storyOf_def emit_def)
  with C9_write_error_ignored [of NoNewData "storiesEnv (TopOK [1, 2])" init
      "[TickerC Open (storiesEnv (TopOK [1, 2]))]"]
  show ?thesis by simp
qed

text \<open>
  C9 as written fails: the session is not torn down by a failed write. In a cycle on a
  closed transport with the new identifiers 1 and 2, the write of story 1 fails, and the
  cycle then fetches item 2 and attempts the write of story 2.
\<close>

theorem C9_closed_transport_counterexample:
  "fst (sendDeltaHackerNewsStories (storiesEnv (TopOK [1, 2])) Closed init)
     = [GetTopStories,
        GetItem 1, Write (NewStory 1 ''{}'') (Some WriteError),
        GetItem 2, Write (NewStory 2 ''{}'') (Some WriteError)]
   \<and> drop 3 (fst (sendDeltaHackerNewsStories (storiesEnv (TopOK [1, 2])) Closed init))
     = [GetItem 2, Write (NewStory 2 ''{}'') (Some WriteError)]"
  by (simp add: sendDeltaHackerNewsStories_def markAndDiff_def init_def maxNewStoriesToSend_def
        deltaStory_def storiesEnv_def storyOf_def emit_def)

end
